theory Spec2Isabelle
  imports Main
begin

section \<open>Python values seen by the checker\<close>

text \<open>
  The module \<^verbatim>\<open>mypy/server/mergecheck.py\<close> looks at objects only through
  \<^verbatim>\<open>id\<close>, \<^verbatim>\<open>type\<close>, \<^verbatim>\<open>isinstance\<close> and the attributes \<^verbatim>\<open>fullname\<close>,
  \<^verbatim>\<open>name\<close> and \<^verbatim>\<open>is_overload\<close>. The classes themselves live in
  \<^verbatim>\<open>mypy.nodes\<close>; the model keeps the four classes the source names and two
  families for every other class: the other concrete subclasses of \<^verbatim>\<open>SymbolNode\<close>
  and the classes that are no \<^verbatim>\<open>SymbolNode\<close>, each identified by its
  \<^verbatim>\<open>__name__\<close>. The four named classes are taken to have no subclasses of their
  own, so \<^verbatim>\<open>isinstance(x, Var)\<close> is \<^verbatim>\<open>type(x) is Var\<close>.
\<close>

datatype error = AssertionError

datatype pyclass =
    Var
  | Decorator
  | FuncDef
  | FakeInfo
  | SymbolNodeClass string
  | OtherClass string

text \<open>\<^verbatim>\<open>type(x).__name__\<close>\<close>

fun type_name :: "pyclass \<Rightarrow> string" where
  "type_name Var = ''Var''"
| "type_name Decorator = ''Decorator''"
| "type_name FuncDef = ''FuncDef''"
| "type_name FakeInfo = ''FakeInfo''"
| "type_name (SymbolNodeClass n) = n"
| "type_name (OtherClass n) = n"

text \<open>\<^verbatim>\<open>isinstance(x, SymbolNode)\<close>, as a function of \<^verbatim>\<open>type(x)\<close>\<close>

fun is_SymbolNode :: "pyclass \<Rightarrow> bool" where
  "is_SymbolNode (OtherClass n) = False"
| "is_SymbolNode c = True"

text \<open>
  A label of an edge is any Python object; the source only formats it, with
  \<^verbatim>\<open>repr\<close> and with \<^verbatim>\<open>str\<close>. Attribute names and string keys are
  \<open>StrLabel\<close>, indices and integer keys are \<open>IntLabel\<close>, and any other key is
  \<open>ObjLabel r s\<close>, given by the two strings \<^verbatim>\<open>repr\<close> and \<^verbatim>\<open>str\<close> return for it.
\<close>

datatype label =
    StrLabel string
  | IntLabel int
  | ObjLabel string string

text \<open>
  An object: its identity \<^verbatim>\<open>id(x)\<close>, its class, the attributes the checker reads
  (\<open>fullname\<close> is \<open>None\<close> when the attribute is \<^verbatim>\<open>None\<close>), the text of
  \<^verbatim>\<open>str(x)\<close>, and its structural members as (label, identity of the member).
\<close>

record pyobj =
  ident :: nat
  type_of :: pyclass
  fullname :: "string option"
  name :: string
  is_overload :: bool
  str_of :: string
  members :: "(label \<times> nat) list"

section \<open>Formatting: \<^verbatim>\<open>%d\<close>, \<^verbatim>\<open>str\<close> and \<^verbatim>\<open>repr\<close>\<close>

fun dec_nat :: "nat \<Rightarrow> string" where
  "dec_nat n =
     (if n < 10 then [''0123456789'' ! n]
      else dec_nat (n div 10) @ [''0123456789'' ! (n mod 10)])"

declare dec_nat.simps [simp del]

definition dec_int :: "int \<Rightarrow> string" where
  "dec_int i = (if i < 0 then CHR ''-'' # dec_nat (nat (- i)) else dec_nat (nat i))"

text \<open>
  \<^verbatim>\<open>repr\<close> of a \<^verbatim>\<open>str\<close>, for strings of code points below 256: the quote is
  \<^verbatim>\<open>"\<close> when the string has a \<^verbatim>\<open>'\<close> and no \<^verbatim>\<open>"\<close>, and \<^verbatim>\<open>'\<close> otherwise; the
  quote and the backslash are escaped with a backslash, tab, newline and carriage
  return are written \<^verbatim>\<open>\t\<close>, \<^verbatim>\<open>\n\<close>, \<^verbatim>\<open>\r\<close>, every other non-printable code
  point is written \<^verbatim>\<open>\xhh\<close>, and a printable one stands for itself.
\<close>

definition printable :: "char \<Rightarrow> bool" where
  "printable c =
     (let n = (of_char c :: nat) in (32 \<le> n \<and> n < 127) \<or> (161 \<le> n \<and> n \<noteq> 173))"

definition hex2 :: "nat \<Rightarrow> string" where
  "hex2 n = [''0123456789abcdef'' ! (n div 16), ''0123456789abcdef'' ! (n mod 16)]"

definition repr_char :: "char \<Rightarrow> char \<Rightarrow> string" where
  "repr_char q c =
     (if c = q \<or> c = CHR 0x5C then [CHR 0x5C, c]
      else if c = CHR 0x09 then [CHR 0x5C, CHR ''t'']
      else if c = CHR 0x0A then [CHR 0x5C, CHR ''n'']
      else if c = CHR 0x0D then [CHR 0x5C, CHR ''r'']
      else if printable c then [c]
      else [CHR 0x5C, CHR ''x''] @ hex2 (of_char c))"

definition py_repr :: "string \<Rightarrow> string" where
  "py_repr s =
     (let q = (if CHR 0x27 \<in> set s \<and> CHR 0x22 \<notin> set s then CHR 0x22 else CHR 0x27)
      in q # concat (map (repr_char q) s) @ [q])"

fun repr_label :: "label \<Rightarrow> string" where
  "repr_label (StrLabel s) = py_repr s"
| "repr_label (IntLabel i) = dec_int i"
| "repr_label (ObjLabel r s) = r"

fun str_label :: "label \<Rightarrow> string" where
  "str_label (StrLabel s) = s"
| "str_label (IntLabel i) = dec_int i"
| "str_label (ObjLabel r s) = s"

section \<open>The path renderer \<^verbatim>\<open>path_to_str\<close>\<close>

text \<open>The body of the \<^verbatim>\<open>for attr, obj in path\<close> loop, with \<open>result\<close> threaded.\<close>

fun path_to_str_loop :: "string \<Rightarrow> (label \<times> pyobj) list \<Rightarrow> string" where
  "path_to_str_loop result [] = result"
| "path_to_str_loop result ((attr, obj) # path) =
     (let t = type_name (type_of obj) in
      if t \<in> set [''dict'', ''tuple'', ''SymbolTable'', ''list'']
      then path_to_str_loop (result @ ''['' @ repr_label attr @ '']'') path
      else if type_of obj = Var
      then path_to_str_loop
             (result @ ''.'' @ str_label attr @ ''('' @ t @ '':'' @ name obj @ '')'') path
      else if t \<in> set [''BuildManager'', ''FineGrainedBuildManager'']
      then path_to_str_loop (result @ ''.'' @ str_label attr) path
      else path_to_str_loop (result @ ''.'' @ str_label attr @ ''('' @ t @ '')'') path)"

definition path_to_str :: "(label \<times> pyobj) list \<Rightarrow> string" where
  "path_to_str path = path_to_str_loop ''<root>'' path"

section \<open>The graph walker\<close>

text \<open>
  The program state is a heap: a list of objects, each with its identity. An
  identity is resolved to the first object of the heap that carries it.
\<close>

type_synonym node_map = "(nat \<times> pyobj) list"
type_synonym edge_map = "(nat \<times> (nat \<times> label)) list"

definition deref :: "pyobj list \<Rightarrow> nat \<Rightarrow> pyobj option" where
  "deref heap i = find (\<lambda>x. ident x = i) heap"

text \<open>
  The source imports \<^verbatim>\<open>get_reachable_graph\<close> and \<^verbatim>\<open>get_path\<close> from
  \<^verbatim>\<open>mypy.server.objgraph\<close>, which is not part of it. Section 4.1 of the
  specification describes them: the walker enumerates the (label, value)
  structural members of an object, skips a member it cannot introspect (here: an
  identity the heap does not resolve), enters each identity into the node map
  once, on first discovery, together with the edge (parent identity, label) it was
  discovered through, and does not descend again into an identity it has seen.
  The order of the traversal is left open by the specification; the model keeps
  the work list as a stack. Both maps are kept in insertion order, as a Python
  \<^verbatim>\<open>dict\<close> does.
\<close>

text \<open>
  Modelled from the spec: the structural members of an object that the walker
  follows, as (label, object); the helper of \<^verbatim>\<open>mypy.server.objgraph\<close> that
  enumerates them is not under \<^verbatim>\<open>src/\<close>.
\<close>

definition get_edges :: "pyobj list \<Rightarrow> pyobj \<Rightarrow> (label \<times> pyobj) list" where
  "get_edges heap obj =
     concat (map (\<lambda>(s, i). case deref heap i of None \<Rightarrow> [] | Some e \<Rightarrow> [(s, e)])
       (members obj))"

text \<open>
  Modelled from the spec: the inner loop of the walker (not under \<^verbatim>\<open>src/\<close>)
  over the members of \<open>obj\<close>; a member whose identity is in the node map is
  passed over, any other is entered into both maps and pushed on the work list.
\<close>

fun visit_edges ::
  "pyobj \<Rightarrow> (label \<times> pyobj) list \<Rightarrow> node_map \<times> edge_map \<times> pyobj list
     \<Rightarrow> node_map \<times> edge_map \<times> pyobj list" where
  "visit_edges obj [] st = st"
| "visit_edges obj ((s, e) # es) (seen, parents, worklist) =
     (if map_of seen (ident e) \<noteq> None then visit_edges obj es (seen, parents, worklist)
      else visit_edges obj es
             (seen @ [(ident e, e)], parents @ [(ident e, (ident obj, s))], e # worklist))"

lemma visit_edges_progress:
  assumes "ident ` snd ` set es \<subseteq> H"
    and "visit_edges obj es (seen, parents, worklist) = (seen', parents', worklist')"
  shows "H - fst ` set seen' \<subset> H - fst ` set seen
         \<or> (fst ` set seen' = fst ` set seen \<and> worklist' = worklist)"
  using assms
proof (induction es arbitrary: seen parents worklist)
  case Nil
  then show ?case by simp
next
  case (Cons a es)
  obtain s e where a: "a = (s, e)" by (cases a)
  have inH: "ident e \<in> H"
    using Cons.prems(1) a by simp
  have rest: "ident ` snd ` set es \<subseteq> H"
    using Cons.prems(1) by simp
  show ?case
  proof (cases "map_of seen (ident e) = None")
    case False
    then have "visit_edges obj es (seen, parents, worklist) = (seen', parents', worklist')"
      using Cons.prems(2) a by simp
    from Cons.IH [OF rest this] show ?thesis .
  next
    case True
    then have new: "ident e \<notin> fst ` set seen"
      by (simp add: map_of_eq_None_iff)
    let ?seen1 = "seen @ [(ident e, e)]"
    have "visit_edges obj es
            (?seen1, parents @ [(ident e, (ident obj, s))], e # worklist)
          = (seen', parents', worklist')"
      using Cons.prems(2) a True by simp
    from Cons.IH [OF rest this]
    have "H - fst ` set seen' \<subset> H - fst ` set ?seen1
          \<or> fst ` set seen' = fst ` set ?seen1"
      by blast
    then have sub: "H - fst ` set seen' \<subseteq> H - fst ` set ?seen1"
    proof
      assume "H - fst ` set seen' \<subset> H - fst ` set ?seen1"
      then show ?thesis by (rule psubset_imp_subset)
    next
      assume "fst ` set seen' = fst ` set ?seen1"
      then show ?thesis by simp
    qed
    have keys1: "fst ` set ?seen1 = insert (ident e) (fst ` set seen)"
      by simp
    have "ident e \<in> H - fst ` set seen" and "ident e \<notin> H - fst ` set ?seen1"
      and "H - fst ` set ?seen1 \<subseteq> H - fst ` set seen"
      using inH new unfolding keys1 by blast+
    then have "H - fst ` set ?seen1 \<subset> H - fst ` set seen"
      by blast
    with sub have "H - fst ` set seen' \<subset> H - fst ` set seen"
      by (rule subset_psubset_trans)
    then show ?thesis ..
  qed
qed

lemma deref_Some: "deref heap i = Some e \<Longrightarrow> e \<in> set heap \<and> ident e = i"
  unfolding deref_def by (auto simp: find_Some_iff)

lemma get_edges_in_heap: "(s, e) \<in> set (get_edges heap obj) \<Longrightarrow> e \<in> set heap"
  unfolding get_edges_def by (auto split: option.splits dest: deref_Some [OF sym])

text \<open>
  Modelled from the spec: the work-list loop of the walker (not under
  \<^verbatim>\<open>src/\<close>); it ends when the work list is empty.
\<close>

function walk :: "pyobj list \<Rightarrow> node_map \<times> edge_map \<times> pyobj list \<Rightarrow> node_map \<times> edge_map" where
  "walk heap (seen, parents, []) = (seen, parents)"
| "walk heap (seen, parents, obj # worklist) =
     walk heap (visit_edges obj (get_edges heap obj) (seen, parents, worklist))"
  by pat_completeness auto

lemma walk_terminates: "All walk_dom"
proof (relation "inv_image (finite_psubset <*lex*> measure length)
         (\<lambda>(heap, seen, parents, worklist). (ident ` set heap - fst ` set seen, worklist))")
  show "wf (inv_image (finite_psubset <*lex*> measure length)
         (\<lambda>(heap, seen, parents, worklist). (ident ` set heap - fst ` set seen, worklist)))"
    by auto
next
  fix heap :: "pyobj list" and seen :: node_map and parents :: edge_map
    and obj :: pyobj and worklist :: "pyobj list"
  obtain seen' parents' worklist' where
    v: "visit_edges obj (get_edges heap obj) (seen, parents, worklist)
        = (seen', parents', worklist')"
    by (cases "visit_edges obj (get_edges heap obj) (seen, parents, worklist)")
  have "ident ` snd ` set (get_edges heap obj) \<subseteq> ident ` set heap"
    using get_edges_in_heap [of _ _ heap obj] by fastforce
  from visit_edges_progress [OF this v]
  have "ident ` set heap - fst ` set seen' \<subset> ident ` set heap - fst ` set seen
        \<or> (fst ` set seen' = fst ` set seen \<and> worklist' = worklist)" .
  then have "((ident ` set heap - fst ` set seen', worklist'),
              (ident ` set heap - fst ` set seen, obj # worklist))
             \<in> finite_psubset <*lex*> measure length"
  proof
    assume "ident ` set heap - fst ` set seen' \<subset> ident ` set heap - fst ` set seen"
    then show ?thesis by (simp add: finite_psubset_def)
  next
    assume "fst ` set seen' = fst ` set seen \<and> worklist' = worklist"
    then show ?thesis by simp
  qed
  then show "((heap, visit_edges obj (get_edges heap obj) (seen, parents, worklist)),
         (heap, seen, parents, obj # worklist))
        \<in> inv_image (finite_psubset <*lex*> measure length)
            (\<lambda>(heap, seen, parents, worklist). (ident ` set heap - fst ` set seen, worklist))"
    by (simp add: v)
qed

termination walk
  by (rule walk_terminates)

text \<open>
  Modelled from the spec: \<^verbatim>\<open>get_reachable_graph\<close> (not under \<^verbatim>\<open>src/\<close>)
  starts from the root alone, in the node map and on the work list, with no edge
  recorded for it.
\<close>

definition get_reachable_graph :: "pyobj list \<Rightarrow> pyobj \<Rightarrow> node_map \<times> edge_map" where
  "get_reachable_graph heap root = walk heap ([(ident root, root)], [], [root])"

text \<open>
  Modelled from the spec: the upward walk of \<^verbatim>\<open>get_path\<close> (not under
  \<^verbatim>\<open>src/\<close>) through the edge map, from an identity up to one with no recorded
  edge, collecting (label, parent object) steps; the renderer subscripts a step
  whose object is a container, so the object of a step is the one the label is
  looked up in. The specification asks for a bound on the number of steps, so that
  a malformed edge map cannot make it loop; the bound here is the size of the edge
  map, and a parent the node map does not hold ends the walk.
\<close>

fun get_path_steps :: "nat \<Rightarrow> nat \<Rightarrow> node_map \<Rightarrow> edge_map \<Rightarrow> (label \<times> pyobj) list" where
  "get_path_steps 0 i seen parents = []"
| "get_path_steps (Suc k) i seen parents =
     (case map_of parents i of
        None \<Rightarrow> []
      | Some (pid, attr) \<Rightarrow>
          (case map_of seen pid of
             None \<Rightarrow> []
           | Some p \<Rightarrow> (attr, p) # get_path_steps k pid seen parents))"

text \<open>
  Modelled from the spec: \<^verbatim>\<open>get_path\<close> (not under \<^verbatim>\<open>src/\<close>) reverses the
  steps into root-to-target order.
\<close>

definition get_path :: "pyobj \<Rightarrow> node_map \<Rightarrow> edge_map \<Rightarrow> (label \<times> pyobj) list" where
  "get_path obj seen parents = rev (get_path_steps (length parents) (ident obj) seen parents)"

section \<open>The duplicate checker \<^verbatim>\<open>check_consistency\<close>\<close>

definition DUMP_MISMATCH_NODES :: bool where
  "DUMP_MISMATCH_NODES = False"

text \<open>
  What \<^verbatim>\<open>print\<close> writes is a list of lines, one per call. A run returns the lines
  it printed and either the error it raised or its value.
\<close>

definition duplicate_lines :: "string \<Rightarrow> pyobj \<Rightarrow> pyobj \<Rightarrow> node_map \<Rightarrow> edge_map \<Rightarrow> string list" where
  "duplicate_lines fn sym1 sym2 seen parents =
     (let path1 = get_path sym1 seen parents;
          path2 = get_path sym2 seen parents
      in [CHR 0x0A # ''Duplicate '' @ py_repr (type_name (type_of sym1))
            @ '' nodes with fullname '' @ py_repr fn @ '' found:'',
          ''[1] '' @ dec_nat (ident sym1) @ '': '' @ path_to_str path1,
          ''[2] '' @ dec_nat (ident sym2) @ '': '' @ path_to_str path2])"

definition dump_lines :: "pyobj \<Rightarrow> pyobj \<Rightarrow> string list" where
  "dump_lines sym1 sym2 =
     [''---'', dec_nat (ident sym1) @ '' '' @ str_of sym1,
      ''---'', dec_nat (ident sym2) @ '' '' @ str_of sym2]"

text \<open>
  One iteration of the \<^verbatim>\<open>for sym in syms\<close> loop (the loop variable is \<open>sy\<close>
  here), on the dictionary \<open>m\<close>: it returns the lines printed and either the
  error raised or the dictionary the next iteration starts from
  (\<^verbatim>\<open>continue\<close> and falling off the end of the body alike). Lines 52, 57 and 64
  of the source test \<^verbatim>\<open>fn in m\<close> again; the model keeps the three tests.
\<close>

definition check_sym ::
  "node_map \<Rightarrow> edge_map \<Rightarrow> (string \<rightharpoonup> pyobj) \<Rightarrow> pyobj
     \<Rightarrow> string list \<times> (error + (string \<rightharpoonup> pyobj))" where
  "check_sym seen parents m sy =
     (if type_of sy = FakeInfo then ([], Inr m)
      else case fullname sy of
        None \<Rightarrow> ([], Inl AssertionError)
      | Some fn \<Rightarrow>
          if type_of sy = Var \<or> type_of sy = Decorator then ([], Inr m)
          else if type_of sy = FuncDef \<and> is_overload sy then ([], Inr m)
          else if m fn = None then ([], Inr (m(fn \<mapsto> sy)))
          else
            let sym1 = sy; sym2 = the (m fn) in
            if type_of sym1 \<noteq> type_of sym2 then ([], Inr m)
            else
              let out =
                (if m fn \<noteq> None then duplicate_lines fn sym1 sym2 seen parents else [])
                @ (if DUMP_MISMATCH_NODES \<and> m fn \<noteq> None then dump_lines sym1 sym2 else [])
              in if m fn \<noteq> None then (out, Inl AssertionError) else (out, Inr m))"

text \<open>
  The loop: an error ends it, otherwise the next iteration runs on the new
  dictionary. When the loop ends the model returns the dictionary as it stands.
\<close>

fun check_syms ::
  "node_map \<Rightarrow> edge_map \<Rightarrow> (string \<rightharpoonup> pyobj) \<Rightarrow> pyobj list
     \<Rightarrow> string list \<times> (error + (string \<rightharpoonup> pyobj))" where
  "check_syms seen parents m [] = ([], Inr m)"
| "check_syms seen parents m (sy # syms) =
     (case check_sym seen parents m sy of
        (out, Inl e) \<Rightarrow> (out, Inl e)
      | (out, Inr m') \<Rightarrow>
          (case check_syms seen parents m' syms of (out', r) \<Rightarrow> (out @ out', r)))"

text \<open>
  The loop started on the empty dictionary; \<^verbatim>\<open>check_consistency\<close> returns
  \<^verbatim>\<open>None\<close> when the loop ends.
\<close>

definition run_syms :: "node_map \<Rightarrow> edge_map \<Rightarrow> pyobj list \<Rightarrow> string list \<times> (error + unit)" where
  "run_syms seen parents syms =
     (case check_syms seen parents Map.empty syms of
        (out, Inl e) \<Rightarrow> (out, Inl e)
      | (out, Inr m) \<Rightarrow> (out, Inr ()))"

definition reachable_syms :: "pyobj list \<Rightarrow> pyobj \<Rightarrow> pyobj list" where
  "reachable_syms heap root =
     (let (seen, parents) = get_reachable_graph heap root;
          reachable = map snd seen
      in filter (\<lambda>x. is_SymbolNode (type_of x)) reachable)"

definition check_consistency :: "pyobj list \<Rightarrow> pyobj \<Rightarrow> string list \<times> (error + unit)" where
  "check_consistency heap root =
     (let (seen, parents) = get_reachable_graph heap root;
          reachable = map snd seen;
          syms = filter (\<lambda>x. is_SymbolNode (type_of x)) reachable
      in run_syms seen parents syms)"

section \<open>Example objects\<close>

text \<open>
  An object with the given identity, class, \<^verbatim>\<open>fullname\<close> and members; the other
  attributes are empty and \<^verbatim>\<open>is_overload\<close> is false.
\<close>

definition mk_obj :: "nat \<Rightarrow> pyclass \<Rightarrow> string option \<Rightarrow> (label \<times> nat) list \<Rightarrow> pyobj" where
  "mk_obj i c fn ms =
     \<lparr>ident = i, type_of = c, fullname = fn, name = [], is_overload = False,
      str_of = [], members = ms\<rparr>"

text \<open>
  A root object: a \<^verbatim>\<open>list\<close> with identity 0 and the given members. The class
  \<^verbatim>\<open>TypeInfo\<close> stands for a concrete subclass of \<^verbatim>\<open>SymbolNode\<close> other than
  the four the source names.
\<close>

definition ex_root :: "(label \<times> nat) list \<Rightarrow> pyobj" where
  "ex_root ms = mk_obj 0 (OtherClass ''list'') None ms"

definition TypeInfo :: pyclass where
  "TypeInfo = SymbolNodeClass ''TypeInfo''"

definition root2 :: pyobj where
  "root2 = ex_root [(IntLabel 0, 1), (IntLabel 1, 2)]"

definition root3 :: pyobj where
  "root3 = ex_root [(IntLabel 0, 1), (IntLabel 1, 2), (IntLabel 2, 3)]"

definition root9 :: pyobj where
  "root9 = ex_root [(IntLabel 0, 1), (IntLabel 1, 2), (IntLabel 2, 3), (IntLabel 3, 4),
                    (IntLabel 4, 5), (IntLabel 5, 6), (IntLabel 6, 7), (IntLabel 7, 8),
                    (IntLabel 8, 9)]"

definition exempt_heap :: "pyobj list" where
  "exempt_heap =
     [root9,
      mk_obj 1 Var (Some ''pkg.mod.x'') [],
      mk_obj 2 Var (Some ''pkg.mod.x'') [],
      mk_obj 3 Decorator (Some ''pkg.mod.f'') [],
      mk_obj 4 Decorator (Some ''pkg.mod.f'') [],
      (mk_obj 5 FuncDef (Some ''pkg.mod.g'') []) \<lparr>is_overload := True\<rparr>,
      (mk_obj 6 FuncDef (Some ''pkg.mod.g'') []) \<lparr>is_overload := True\<rparr>,
      mk_obj 7 TypeInfo (Some ''pkg.mod.Foo'') [],
      mk_obj 8 FakeInfo None [],
      mk_obj 9 FakeInfo None []]"

section \<open>Predicates for the statements\<close>

text \<open>
  An entity the loop compares and records: it is no \<^verbatim>\<open>FakeInfo\<close>, no
  \<^verbatim>\<open>Var\<close>, no \<^verbatim>\<open>Decorator\<close> and no \<^verbatim>\<open>FuncDef\<close> with \<^verbatim>\<open>is_overload\<close>.
\<close>

definition is_checked :: "pyobj \<Rightarrow> bool" where
  "is_checked sy =
     (type_of sy \<noteq> FakeInfo \<and> type_of sy \<noteq> Var \<and> type_of sy \<noteq> Decorator
      \<and> \<not> (type_of sy = FuncDef \<and> is_overload sy))"

text \<open>
  An entity of one of the three kinds that may share a name: a \<^verbatim>\<open>Var\<close>, a
  \<^verbatim>\<open>Decorator\<close> or a \<^verbatim>\<open>FuncDef\<close> with \<^verbatim>\<open>is_overload\<close>.
\<close>

definition is_exempt :: "pyobj \<Rightarrow> bool" where
  "is_exempt x =
     (type_of x = Var \<or> type_of x = Decorator \<or> (type_of x = FuncDef \<and> is_overload x))"

text \<open>
  The fragment of one step of a path as section 4.3 of the specification words
  it, to be compared with the loop of \<^verbatim>\<open>path_to_str\<close>: a subscript with
  \<^verbatim>\<open>repr\<close> of the label for an object of a container kind, a field access with
  the kind and the entity's own name for a \<^verbatim>\<open>Var\<close>, a bare field access for the
  two manager kinds, and a field access with the kind for any other object.
\<close>

definition render_step :: "label \<times> pyobj \<Rightarrow> string" where
  "render_step step =
     (let label = fst step; obj = snd step; kind = type_name (type_of obj) in
      if kind \<in> set [''dict'', ''tuple'', ''SymbolTable'', ''list'']
      then ''['' @ repr_label label @ '']''
      else if type_of obj = Var
      then ''.'' @ str_label label @ ''('' @ kind @ '':'' @ name obj @ '')''
      else if kind = ''BuildManager'' \<or> kind = ''FineGrainedBuildManager''
      then ''.'' @ str_label label
      else ''.'' @ str_label label @ ''('' @ kind @ '')'')"

text \<open>
  The two fatal conditions, as the loop meets them at position \<open>i\<close> of the
  entities: the entity is no \<^verbatim>\<open>FakeInfo\<close> and has no name, or it is an entity
  the loop records and the first recorded-kind entity before it with its name has
  its class.
\<close>

definition violation_at :: "pyobj list \<Rightarrow> nat \<Rightarrow> bool" where
  "violation_at syms i =
     (let s = syms ! i in
      type_of s \<noteq> FakeInfo \<and>
      (fullname s = None \<or>
       (is_checked s \<and>
        (case find (\<lambda>x. is_checked x \<and> fullname x = fullname s) (take i syms) of
           None \<Rightarrow> False
         | Some a \<Rightarrow> type_of a = type_of s))))"

text \<open>
  For the walker: \<open>refs\<close> is the reference relation of a heap on identities,
  \<open>closed_in\<close> says that every object an object refers to is in the node map,
  and \<open>walk_inv\<close> is the invariant of the work-list loop.
\<close>

definition refs :: "pyobj list \<Rightarrow> (nat \<times> nat) set" where
  "refs heap =
     {(i, j). \<exists>obj s e. deref heap i = Some obj \<and> (s, e) \<in> set (get_edges heap obj) \<and> ident e = j}"

definition closed_in :: "pyobj list \<Rightarrow> node_map \<Rightarrow> pyobj \<Rightarrow> bool" where
  "closed_in heap seen obj = (ident ` snd ` set (get_edges heap obj) \<subseteq> fst ` set seen)"

definition walk_inv :: "pyobj list \<Rightarrow> node_map \<times> edge_map \<times> pyobj list \<Rightarrow> bool" where
  "walk_inv heap st =
     (case st of (seen, parents, worklist) \<Rightarrow>
        distinct (map fst seen)
        \<and> (\<forall>x \<in> set seen. deref heap (fst x) = Some (snd x))
        \<and> (\<forall>x \<in> set seen. snd x \<in> set worklist \<or> closed_in heap seen (snd x)))"

section \<open>Lemmas on the loop\<close>

lemma check_sym_FakeInfo:
  "type_of sy = FakeInfo \<Longrightarrow> check_sym seen parents m sy = ([], Inr m)"
  by (simp add: check_sym_def)

lemma check_sym_absent:
  "type_of sy \<noteq> FakeInfo \<Longrightarrow> fullname sy = None
   \<Longrightarrow> check_sym seen parents m sy = ([], Inl AssertionError)"
  by (simp add: check_sym_def)

lemma check_sym_exempt:
  "\<not> is_checked sy \<Longrightarrow> fullname sy = Some fn \<Longrightarrow> check_sym seen parents m sy = ([], Inr m)"
  by (auto simp add: check_sym_def is_checked_def)

lemma check_sym_record:
  "is_checked sy \<Longrightarrow> fullname sy = Some fn \<Longrightarrow> m fn = None
   \<Longrightarrow> check_sym seen parents m sy = ([], Inr (m(fn \<mapsto> sy)))"
  by (auto simp add: check_sym_def is_checked_def)

lemma check_sym_kind_change:
  "is_checked sy \<Longrightarrow> fullname sy = Some fn \<Longrightarrow> m fn = Some sym2
   \<Longrightarrow> type_of sy \<noteq> type_of sym2 \<Longrightarrow> check_sym seen parents m sy = ([], Inr m)"
  by (auto simp add: check_sym_def is_checked_def)

lemma check_sym_duplicate:
  "is_checked sy \<Longrightarrow> fullname sy = Some fn \<Longrightarrow> m fn = Some sym2
   \<Longrightarrow> type_of sy = type_of sym2
   \<Longrightarrow> check_sym seen parents m sy = (duplicate_lines fn sy sym2 seen parents, Inl AssertionError)"
  by (auto simp add: check_sym_def is_checked_def DUMP_MISMATCH_NODES_def)

lemma check_sym_cases:
  obtains (skip) "check_sym seen parents m sy = ([], Inr m)"
  | (absent) "type_of sy \<noteq> FakeInfo" "fullname sy = None"
      "check_sym seen parents m sy = ([], Inl AssertionError)"
  | (bind) fn where "is_checked sy" "fullname sy = Some fn" "m fn = None"
      "check_sym seen parents m sy = ([], Inr (m(fn \<mapsto> sy)))"
  | (duplicate) fn sym2 where "is_checked sy" "fullname sy = Some fn" "m fn = Some sym2"
      "type_of sy = type_of sym2"
      "check_sym seen parents m sy = (duplicate_lines fn sy sym2 seen parents, Inl AssertionError)"
proof (cases "type_of sy = FakeInfo")
  case True
  then show ?thesis using skip check_sym_FakeInfo by blast
next
  case nf: False
  show ?thesis
  proof (cases "fullname sy")
    case None
    then show ?thesis using absent nf check_sym_absent by blast
  next
    case (Some fn)
    show ?thesis
    proof (cases "is_checked sy")
      case False
      then show ?thesis using skip Some check_sym_exempt by blast
    next
      case chk: True
      show ?thesis
      proof (cases "m fn")
        case None
        then show ?thesis using bind chk Some check_sym_record by blast
      next
        case (Some sym2)
        then show ?thesis
          using skip duplicate chk \<open>fullname sy = Some fn\<close>
            check_sym_kind_change check_sym_duplicate by (cases "type_of sy = type_of sym2") blast+
      qed
    qed
  qed
qed

lemma check_sym_Inr_out: "check_sym seen parents m sy = (out, Inr m') \<Longrightarrow> out = []"
  by (rule check_sym_cases [where seen = seen and parents = parents and m = m and sy = sy])
    simp_all

lemma check_syms_Inr_out: "check_syms seen parents m syms = (out, Inr m') \<Longrightarrow> out = []"
proof (induction syms arbitrary: m out)
  case Nil
  then show ?case by simp
next
  case (Cons sy syms)
  then show ?case
    by (auto split: prod.splits sum.splits dest: check_sym_Inr_out)
qed

lemma check_syms_append:
  "check_syms seen parents m (xs @ ys) =
     (case check_syms seen parents m xs of
        (out, Inl e) \<Rightarrow> (out, Inl e)
      | (out, Inr m') \<Rightarrow> check_syms seen parents m' ys)"
proof (induction xs arbitrary: m)
  case Nil
  then show ?case by simp
next
  case (Cons sy xs)
  show ?case
  proof (cases "check_sym seen parents m sy")
    case (Pair out r)
    show ?thesis
    proof (cases r)
      case (Inl e)
      then show ?thesis using Pair by simp
    next
      case (Inr m1)
      then have out: "out = []" using Pair check_sym_Inr_out by blast
      show ?thesis using Pair Inr out Cons.IH [of m1]
        by (auto split: prod.splits sum.splits dest: check_syms_Inr_out)
    qed
  qed
qed

lemma check_syms_binding:
  "check_syms seen parents m0 pre = (out, Inr m) \<Longrightarrow>
   m fn = (case m0 fn of Some x \<Rightarrow> Some x
           | None \<Rightarrow> find (\<lambda>s. is_checked s \<and> fullname s = Some fn) pre)"
proof (induction pre arbitrary: m0 out)
  case Nil
  then show ?case by (simp split: option.splits)
next
  case (Cons sy pre)
  obtain o1 r1 where c: "check_sym seen parents m0 sy = (o1, r1)"
    by (cases "check_sym seen parents m0 sy")
  show ?case
  proof (rule check_sym_cases [where seen = seen and parents = parents and m = m0 and sy = sy])
    assume s: "check_sym seen parents m0 sy = ([], Inr m0)"
    then have rest: "check_syms seen parents m0 pre = (out, Inr m)"
      using Cons.prems by (simp split: prod.splits)
    have "\<not> (is_checked sy \<and> fullname sy = Some fn) \<or> m0 fn \<noteq> None"
      using s by (auto simp: check_sym_def is_checked_def fun_eq_iff DUMP_MISMATCH_NODES_def Let_def split: if_splits option.splits)
    then show ?thesis
      using Cons.IH [OF rest] by (auto split: option.splits)
  next
    assume "check_sym seen parents m0 sy = ([], Inl AssertionError)"
    then show ?thesis using Cons.prems by simp
  next
    fix fn' assume a: "is_checked sy" "fullname sy = Some fn'" "m0 fn' = None"
      "check_sym seen parents m0 sy = ([], Inr (m0(fn' \<mapsto> sy)))"
    then have rest: "check_syms seen parents (m0(fn' \<mapsto> sy)) pre = (out, Inr m)"
      using Cons.prems by (simp split: prod.splits)
    show ?thesis
      using Cons.IH [OF rest] a by (auto split: option.splits)
  next
    fix fn' sym2 assume "check_sym seen parents m0 sy
        = (duplicate_lines fn' sy sym2 seen parents, Inl AssertionError)"
    then show ?thesis using Cons.prems by simp
  qed
qed

lemma error_is_AssertionError: "(e :: error) = AssertionError"
  by (cases e) simp

lemma check_syms_no_clash:
  assumes "\<forall>s \<in> set syms. type_of s \<noteq> FakeInfo \<longrightarrow> fullname s \<noteq> None"
    and "\<forall>s \<in> set syms. is_checked s \<longrightarrow> (\<forall>fn. fullname s = Some fn \<longrightarrow> m fn = None)"
    and "distinct (map fullname (filter is_checked syms))"
  shows "\<exists>m'. check_syms seen parents m syms = ([], Inr m')"
  using assms
proof (induction syms arbitrary: m)
  case Nil
  then show ?case by simp
next
  case (Cons sy syms)
  have named: "\<forall>s \<in> set syms. type_of s \<noteq> FakeInfo \<longrightarrow> fullname s \<noteq> None"
    using Cons.prems(1) by simp
  have dist: "distinct (map fullname (filter is_checked syms))"
    using Cons.prems(3) by (simp split: if_splits)
  show ?case
  proof (rule check_sym_cases [where seen = seen and parents = parents and m = m and sy = sy])
    assume s: "check_sym seen parents m sy = ([], Inr m)"
    have "\<forall>s \<in> set syms. is_checked s \<longrightarrow> (\<forall>fn. fullname s = Some fn \<longrightarrow> m fn = None)"
      using Cons.prems(2) by simp
    from Cons.IH [OF named this dist] obtain m' where
      "check_syms seen parents m syms = ([], Inr m')" ..
    then show ?thesis using s by simp
  next
    assume "type_of sy \<noteq> FakeInfo" "fullname sy = None"
    then show ?thesis using Cons.prems(1) by simp
  next
    fix fn' assume a: "is_checked sy" "fullname sy = Some fn'" "m fn' = None"
      "check_sym seen parents m sy = ([], Inr (m(fn' \<mapsto> sy)))"
    have fresh: "Some fn' \<notin> fullname ` set (filter is_checked syms)"
      using Cons.prems(3) a(1,2) by simp
    have "\<forall>s \<in> set syms. is_checked s \<longrightarrow>
            (\<forall>fn. fullname s = Some fn \<longrightarrow> (m(fn' \<mapsto> sy)) fn = None)"
    proof (intro ballI impI allI)
      fix s fn assume s: "s \<in> set syms" "is_checked s" "fullname s = Some fn"
      then have "fn \<noteq> fn'" using fresh by force
      moreover have "m fn = None" using Cons.prems(2) s by simp
      ultimately show "(m(fn' \<mapsto> sy)) fn = None" by simp
    qed
    from Cons.IH [OF named this dist] obtain m' where
      "check_syms seen parents (m(fn' \<mapsto> sy)) syms = ([], Inr m')" ..
    then show ?thesis using a(4) by simp
  next
    fix fn' sym2 assume "is_checked sy" "fullname sy = Some fn'" "m fn' = Some sym2"
    then show ?thesis using Cons.prems(2) by simp
  qed
qed

lemma check_syms_absent:
  "s \<in> set syms \<Longrightarrow> type_of s \<noteq> FakeInfo \<Longrightarrow> fullname s = None
   \<Longrightarrow> snd (check_syms seen parents m syms) = Inl AssertionError"
proof (induction syms arbitrary: m)
  case Nil
  then show ?case by simp
next
  case (Cons sy syms)
  obtain out r where c: "check_sym seen parents m sy = (out, r)"
    by (cases "check_sym seen parents m sy")
  show ?case
  proof (cases r)
    case (Inl e)
    then show ?thesis using c error_is_AssertionError [of e] by simp
  next
    case (Inr m')
    then have "s \<noteq> sy"
      using c Cons.prems(2,3) check_sym_absent [of s seen parents m] by auto
    then have "s \<in> set syms" using Cons.prems(1) by simp
    from Cons.IH [OF this Cons.prems(2,3)]
    have "snd (check_syms seen parents m' syms) = Inl AssertionError" .
    then show ?thesis using c Inr by (auto split: prod.splits)
  qed
qed

lemma check_syms_skip_FakeInfo:
  "check_syms seen parents m syms
   = check_syms seen parents m (filter (\<lambda>x. type_of x \<noteq> FakeInfo) syms)"
proof (induction syms arbitrary: m)
  case Nil
  then show ?case by simp
next
  case (Cons sy syms)
  show ?case
  proof (cases "type_of sy = FakeInfo")
    case True
    then show ?thesis using Cons.IH [of m] by (simp add: check_sym_FakeInfo)
  next
    case False
    then show ?thesis using Cons.IH by (simp split: prod.splits sum.splits)
  qed
qed

lemma check_consistency_eq:
  "check_consistency heap root =
     run_syms (fst (get_reachable_graph heap root)) (snd (get_reachable_graph heap root))
       (reachable_syms heap root)"
  by (simp add: check_consistency_def reachable_syms_def Let_def split: prod.splits)

lemma py_repr_plain:
  assumes "\<forall>c \<in> set s. printable c \<and> c \<noteq> CHR 0x27 \<and> c \<noteq> CHR 0x5C"
  shows "py_repr s = CHR 0x27 # s @ [CHR 0x27]"
proof -
  have q: "CHR 0x27 \<notin> set s" using assms by auto
  have "\<not> printable (CHR 0x09)" "\<not> printable (CHR 0x0A)" "\<not> printable (CHR 0x0D)"
    by (simp_all add: printable_def)
  then have "\<forall>c \<in> set s. repr_char (CHR 0x27) c = [c]"
    using assms by (auto simp: repr_char_def)
  then have "concat (map (repr_char (CHR 0x27)) s) = s"
    by (induction s) simp_all
  then show ?thesis using q by (simp add: py_repr_def Let_def)
qed

lemma run_syms_no_clash:
  assumes "\<forall>s \<in> set syms. type_of s \<noteq> FakeInfo \<longrightarrow> fullname s \<noteq> None"
    and "distinct (map fullname (filter is_checked syms))"
  shows "run_syms seen parents syms = ([], Inr ())"
proof -
  have "\<forall>s \<in> set syms. is_checked s \<longrightarrow> (\<forall>fn. fullname s = Some fn \<longrightarrow> Map.empty fn = None)"
    by simp
  from check_syms_no_clash [OF assms(1) this assms(2)]
  obtain m' where "check_syms seen parents Map.empty syms = ([], Inr m')" ..
  then show ?thesis by (simp add: run_syms_def)
qed

lemma check_syms_duplicate_of_first:
  assumes "find (\<lambda>s. is_checked s \<and> fullname s = Some fn) pre = Some a"
    and "is_checked b" and "fullname b = Some fn" and "type_of b = type_of a"
  shows "snd (check_syms seen parents Map.empty (pre @ b # rest)) = Inl AssertionError"
    and "check_syms seen parents Map.empty pre = (out, Inr m) \<Longrightarrow>
         check_syms seen parents Map.empty (pre @ b # rest)
         = (duplicate_lines fn b a seen parents, Inl AssertionError)"
proof -
  have reach: "check_syms seen parents Map.empty (pre @ b # rest)
         = (duplicate_lines fn b a seen parents, Inl AssertionError)"
    if p: "check_syms seen parents Map.empty pre = (out, Inr m)" for out m
  proof -
    have "m fn = Some a"
      using check_syms_binding [OF p, of fn] assms(1) by simp
    then have "check_sym seen parents m b = (duplicate_lines fn b a seen parents, Inl AssertionError)"
      using assms(2-4) by (simp add: check_sym_duplicate)
    then show ?thesis using p by (simp add: check_syms_append)
  qed
  then show "check_syms seen parents Map.empty pre = (out, Inr m) \<Longrightarrow>
         check_syms seen parents Map.empty (pre @ b # rest)
         = (duplicate_lines fn b a seen parents, Inl AssertionError)" .
  obtain o1 r1 where c: "check_syms seen parents Map.empty pre = (o1, r1)"
    by (cases "check_syms seen parents Map.empty pre")
  show "snd (check_syms seen parents Map.empty (pre @ b # rest)) = Inl AssertionError"
  proof (cases r1)
    case (Inl e)
    then show ?thesis using c error_is_AssertionError [of e] by (simp add: check_syms_append)
  next
    case (Inr m1)
    then show ?thesis using reach [of o1 m1] c by simp
  qed
qed

lemma check_syms_ignore_kind_change:
  assumes "find (\<lambda>s. is_checked s \<and> fullname s = Some fn) pre = Some a"
    and "fullname b = Some fn" and "type_of b \<noteq> type_of a"
  shows "check_syms seen parents Map.empty (pre @ b # rest)
         = check_syms seen parents Map.empty (pre @ rest)"
proof -
  obtain o1 r1 where c: "check_syms seen parents Map.empty pre = (o1, r1)"
    by (cases "check_syms seen parents Map.empty pre")
  show ?thesis
  proof (cases r1)
    case (Inl e)
    then show ?thesis using c by (simp add: check_syms_append)
  next
    case (Inr m)
    have m: "m fn = Some a"
      using check_syms_binding [of seen parents Map.empty pre o1 m fn] c Inr assms(1) by simp
    have "check_sym seen parents m b = ([], Inr m)"
    proof (cases "is_checked b")
      case True
      then show ?thesis using m assms(2,3) by (simp add: check_sym_kind_change)
    next
      case False
      then show ?thesis using assms(2) by (simp add: check_sym_exempt)
    qed
    then show ?thesis using c Inr by (simp add: check_syms_append split: prod.splits)
  qed
qed

lemma unique_names_distinct:
  assumes "\<forall>x \<in> set xs. P x \<longrightarrow> length (filter (\<lambda>y. f y = f x) xs) = 1"
  shows "distinct (map f (filter P xs))"
  using assms
proof (induction xs)
  case Nil
  then show ?case by simp
next
  case (Cons a xs)
  have tail: "f a \<noteq> f x \<and> length (filter (\<lambda>y. f y = f x) xs) = 1"
    if x: "x \<in> set xs" "P x" for x
  proof -
    have one: "length (filter (\<lambda>y. f y = f x) (a # xs)) = 1"
      using Cons.prems x by simp
    have "x \<in> set (filter (\<lambda>y. f y = f x) xs)" using x by simp
    then have "length (filter (\<lambda>y. f y = f x) xs) \<noteq> 0"
      by (metis length_0_conv empty_iff list.set(1))
    then show ?thesis using one by (simp split: if_splits)
  qed
  then have "distinct (map f (filter P xs))"
    using Cons.IH by blast
  moreover have "f a \<notin> f ` set (filter P xs)"
    using tail by auto
  ultimately show ?case by simp
qed

lemma path_to_str_loop_render:
  "path_to_str_loop result path = result @ concat (map render_step path)"
proof (induction path arbitrary: result)
  case Nil
  then show ?case by simp
next
  case (Cons step path)
  obtain attr obj where s: "step = (attr, obj)" by (cases step)
  show ?case
    unfolding s by (simp add: Cons.IH render_step_def Let_def)
qed

section \<open>Lemmas on the walker\<close>

lemma get_edges_deref:
  "(s, e) \<in> set (get_edges heap obj) \<Longrightarrow> deref heap (ident e) = Some e"
  unfolding get_edges_def by (auto split: option.splits dest: deref_Some [OF sym])

lemma get_edges_member:
  "(s, i) \<in> set (members obj) \<Longrightarrow> deref heap i = Some e \<Longrightarrow> (s, e) \<in> set (get_edges heap obj)"
  unfolding get_edges_def by force

lemma visit_edges_inv:
  assumes "visit_edges obj es (seen, parents, worklist) = (seen', parents', worklist')"
    and "\<forall>e \<in> snd ` set es. deref heap (ident e) = Some e"
    and "distinct (map fst seen)"
    and "\<forall>x \<in> set seen. deref heap (fst x) = Some (snd x)"
  shows "distinct (map fst seen')
    \<and> (\<forall>x \<in> set seen'. deref heap (fst x) = Some (snd x))
    \<and> set seen \<subseteq> set seen' \<and> set worklist \<subseteq> set worklist'
    \<and> (\<forall>x \<in> set seen' - set seen. snd x \<in> set worklist')
    \<and> ident ` snd ` set es \<subseteq> fst ` set seen'"
  using assms
proof (induction es arbitrary: seen parents worklist)
  case Nil
  then show ?case by simp
next
  case (Cons a es)
  obtain s e where a: "a = (s, e)" by (cases a)
  have de: "deref heap (ident e) = Some e"
    using Cons.prems(2) a by simp
  have rest: "\<forall>e \<in> snd ` set es. deref heap (ident e) = Some e"
    using Cons.prems(2) by simp
  show ?case
  proof (cases "map_of seen (ident e) = None")
    case False
    then have v: "visit_edges obj es (seen, parents, worklist) = (seen', parents', worklist')"
      using Cons.prems(1) a by simp
    note ih = Cons.IH [OF v rest Cons.prems(3,4)]
    have "ident e \<in> fst ` set seen"
      using False by (simp add: map_of_eq_None_iff)
    moreover have "fst ` set seen \<subseteq> fst ` set seen'"
      using ih by blast
    ultimately have "ident e \<in> fst ` set seen'" by blast
    then show ?thesis using ih a by simp
  next
    case True
    let ?seen1 = "seen @ [(ident e, e)]"
    have v: "visit_edges obj es (?seen1, parents @ [(ident e, (ident obj, s))], e # worklist)
             = (seen', parents', worklist')"
      using Cons.prems(1) a True by simp
    have new: "ident e \<notin> fst ` set seen"
      using True by (simp add: map_of_eq_None_iff)
    have d1: "distinct (map fst ?seen1)"
      using Cons.prems(3) new by simp
    have r1: "\<forall>x \<in> set ?seen1. deref heap (fst x) = Some (snd x)"
      using Cons.prems(4) de by simp
    note ih = Cons.IH [OF v rest d1 r1]
    have sub: "set ?seen1 \<subseteq> set seen'" and wsub: "set (e # worklist) \<subseteq> set worklist'"
      using ih by blast+
    have c1: "set seen \<subseteq> set seen'" using sub by simp
    have c2: "set worklist \<subseteq> set worklist'" using wsub by simp
    have c3: "\<forall>x \<in> set seen' - set seen. snd x \<in> set worklist'"
    proof
      fix x assume x: "x \<in> set seen' - set seen"
      show "snd x \<in> set worklist'"
      proof (cases "x \<in> set ?seen1")
        case True
        then have "x = (ident e, e)" using x by simp
        then show ?thesis using wsub by simp
      next
        case False
        then have "x \<in> set seen' - set ?seen1" using x by simp
        then show ?thesis using ih by blast
      qed
    qed
    have "(ident e, e) \<in> set seen'" using sub by simp
    then have "ident e \<in> fst ` set seen'" by force
    then have c4: "ident ` snd ` set (a # es) \<subseteq> fst ` set seen'"
      using ih a by simp
    show ?thesis using ih c1 c2 c3 c4 by blast
  qed
qed

lemma walk_inv_step:
  assumes "walk_inv heap (seen, parents, obj # worklist)"
  shows "walk_inv heap (visit_edges obj (get_edges heap obj) (seen, parents, worklist))
    \<and> set seen \<subseteq> set (fst (visit_edges obj (get_edges heap obj) (seen, parents, worklist)))"
proof -
  obtain seen' parents' worklist' where
    v: "visit_edges obj (get_edges heap obj) (seen, parents, worklist)
        = (seen', parents', worklist')"
    by (cases "visit_edges obj (get_edges heap obj) (seen, parents, worklist)")
  have d: "distinct (map fst seen)"
    and r: "\<forall>x \<in> set seen. deref heap (fst x) = Some (snd x)"
    and c: "\<forall>x \<in> set seen. snd x \<in> set (obj # worklist) \<or> closed_in heap seen (snd x)"
    using assms by (simp_all add: walk_inv_def)
  have e: "\<forall>e \<in> snd ` set (get_edges heap obj). deref heap (ident e) = Some e"
    using get_edges_deref by fastforce
  note vi = visit_edges_inv [OF v e d r]
  have sub: "set seen \<subseteq> set seen'" and wsub: "set worklist \<subseteq> set worklist'"
    and fresh: "\<forall>x \<in> set seen' - set seen. snd x \<in> set worklist'"
    and edges: "ident ` snd ` set (get_edges heap obj) \<subseteq> fst ` set seen'"
    using vi by blast+
  have keys: "fst ` set seen \<subseteq> fst ` set seen'"
    using sub by blast
  have "snd x \<in> set worklist' \<or> closed_in heap seen' (snd x)" if x: "x \<in> set seen'" for x
  proof (cases "x \<in> set seen")
    case False
    then show ?thesis using x fresh by blast
  next
    case True
    then consider "snd x = obj" | "snd x \<in> set worklist" | "closed_in heap seen (snd x)"
      using c by auto
    then show ?thesis
    proof cases
      case 1
      then show ?thesis using edges by (simp add: closed_in_def)
    next
      case 2
      then show ?thesis using wsub by blast
    next
      case 3
      then show ?thesis using keys unfolding closed_in_def by blast
    qed
  qed
  then have "walk_inv heap (seen', parents', worklist')"
    using vi by (simp add: walk_inv_def)
  then show ?thesis using v sub by simp
qed

lemma walk_inv_final:
  "walk_inv heap st \<Longrightarrow>
   distinct (map fst (fst (walk heap st)))
   \<and> set (fst st) \<subseteq> set (fst (walk heap st))
   \<and> (\<forall>x \<in> set (fst (walk heap st)).
         deref heap (fst x) = Some (snd x) \<and> closed_in heap (fst (walk heap st)) (snd x))"
proof (induction heap st rule: walk.induct)
  case (1 heap seen parents)
  then show ?case by (simp add: walk_inv_def)
next
  case (2 heap seen parents obj worklist)
  let ?st = "visit_edges obj (get_edges heap obj) (seen, parents, worklist)"
  have i: "walk_inv heap ?st" and s: "set seen \<subseteq> set (fst ?st)"
    using walk_inv_step [OF "2.prems"] by blast+
  note ih = "2.IH" [OF i]
  have "set seen \<subseteq> set (fst (walk heap ?st))"
    using s ih by blast
  then show ?case using ih by simp
qed

lemma get_reachable_graph_sound:
  assumes "deref heap (ident root) = Some root"
  shows "distinct (map fst (fst (get_reachable_graph heap root)))"
    and "(ident root, root) \<in> set (fst (get_reachable_graph heap root))"
    and "x \<in> set (fst (get_reachable_graph heap root)) \<Longrightarrow> deref heap (fst x) = Some (snd x)"
    and "x \<in> set (fst (get_reachable_graph heap root)) \<Longrightarrow>
           closed_in heap (fst (get_reachable_graph heap root)) (snd x)"
proof -
  have "walk_inv heap ([(ident root, root)], [], [root])"
    using assms by (simp add: walk_inv_def)
  from walk_inv_final [OF this]
  have f: "distinct (map fst (fst (get_reachable_graph heap root)))
    \<and> set [(ident root, root)] \<subseteq> set (fst (get_reachable_graph heap root))
    \<and> (\<forall>x \<in> set (fst (get_reachable_graph heap root)).
         deref heap (fst x) = Some (snd x)
         \<and> closed_in heap (fst (get_reachable_graph heap root)) (snd x))"
    by (simp add: get_reachable_graph_def)
  show "distinct (map fst (fst (get_reachable_graph heap root)))"
    using f by blast
  show "(ident root, root) \<in> set (fst (get_reachable_graph heap root))"
    using f by simp
  show "x \<in> set (fst (get_reachable_graph heap root)) \<Longrightarrow> deref heap (fst x) = Some (snd x)"
    using f by blast
  show "x \<in> set (fst (get_reachable_graph heap root)) \<Longrightarrow>
           closed_in heap (fst (get_reachable_graph heap root)) (snd x)"
    using f by blast
qed

lemma get_reachable_graph_complete:
  assumes "deref heap (ident root) = Some root"
    and "(ident root, j) \<in> (refs heap)\<^sup>*"
  shows "j \<in> fst ` set (fst (get_reachable_graph heap root))"
  using assms(2)
proof (induction rule: rtrancl_induct)
  case base
  show ?case using get_reachable_graph_sound(2) [OF assms(1)] by force
next
  case (step j k)
  let ?seen = "fst (get_reachable_graph heap root)"
  obtain x where x: "x \<in> set ?seen" "fst x = j"
    using step.IH by auto
  have dx: "deref heap j = Some (snd x)"
    using get_reachable_graph_sound(3) [OF assms(1) x(1)] x(2) by simp
  obtain obj s e where o: "deref heap j = Some obj" "(s, e) \<in> set (get_edges heap obj)" "ident e = k"
    using step.hyps(2) by (auto simp: refs_def)
  have "obj = snd x" using o(1) dx by simp
  then have "closed_in heap ?seen obj"
    using get_reachable_graph_sound(4) [OF assms(1) x(1)] by simp
  then show ?case
    using o(2,3) unfolding closed_in_def by force
qed

lemma count_list_distinct:
  "distinct xs \<Longrightarrow> x \<in> set xs \<Longrightarrow> count_list xs x = 1"
  by (induction xs) auto

lemma get_reachable_graph_once:
  assumes "deref heap (ident root) = Some root"
    and "(ident root, j) \<in> (refs heap)\<^sup>*"
  shows "count_list (map fst (fst (get_reachable_graph heap root))) j = 1"
    and "deref heap j = Some obj \<Longrightarrow> map_of (fst (get_reachable_graph heap root)) j = Some obj"
proof -
  let ?seen = "fst (get_reachable_graph heap root)"
  have d: "distinct (map fst ?seen)"
    using get_reachable_graph_sound(1) [OF assms(1)] .
  have k: "j \<in> set (map fst ?seen)"
    using get_reachable_graph_complete [OF assms] by simp
  show "count_list (map fst ?seen) j = 1"
    using d k by (rule count_list_distinct)
  show "map_of ?seen j = Some obj" if h: "deref heap j = Some obj"
  proof -
    obtain x where x: "x \<in> set ?seen" "fst x = j"
      using k by auto
    have "snd x = obj"
      using get_reachable_graph_sound(3) [OF assms(1) x(1)] x(2) h by simp
    then have "(j, obj) \<in> set ?seen" using x by (cases x) simp
    then show ?thesis using d by simp
  qed
qed

lemma violation_at_append:
  "i < length xs \<Longrightarrow> violation_at (xs @ ys) i = violation_at xs i"
  by (simp add: violation_at_def nth_append)

lemma check_syms_no_violation:
  "\<forall>i < length syms. \<not> violation_at syms i
   \<Longrightarrow> \<exists>m. check_syms seen parents Map.empty syms = ([], Inr m)"
proof (induction syms rule: rev_induct)
  case Nil
  then show ?case by simp
next
  case (snoc s xs)
  have "\<forall>i < length xs. \<not> violation_at xs i"
    using snoc.prems violation_at_append [of _ xs "[s]"] by simp
  from snoc.IH [OF this] obtain m where
    m: "check_syms seen parents Map.empty xs = ([], Inr m)" ..
  have nv: "\<not> violation_at (xs @ [s]) (length xs)"
    using snoc.prems by simp
  have "\<exists>m'. check_sym seen parents m s = ([], Inr m')"
  proof (rule check_sym_cases [where seen = seen and parents = parents and m = m and sy = s])
    assume "check_sym seen parents m s = ([], Inr m)"
    then show ?thesis by blast
  next
    assume "type_of s \<noteq> FakeInfo" "fullname s = None"
    then show ?thesis using nv by (simp add: violation_at_def)
  next
    fix fn assume "check_sym seen parents m s = ([], Inr (m(fn \<mapsto> s)))"
    then show ?thesis by blast
  next
    fix fn sym2 assume a: "is_checked s" "fullname s = Some fn" "m fn = Some sym2"
      "type_of s = type_of sym2"
    have "find (\<lambda>x. is_checked x \<and> fullname x = Some fn) xs = Some sym2"
      using check_syms_binding [OF m, of fn] a(3) by simp
    then have "violation_at (xs @ [s]) (length xs)"
      using a by (simp add: violation_at_def is_checked_def)
    then show ?thesis using nv by simp
  qed
  then obtain m' where "check_sym seen parents m s = ([], Inr m')" ..
  then show ?case using m by (simp add: check_syms_append)
qed

lemma check_syms_violation:
  assumes "i < length syms" and "violation_at syms i"
  shows "snd (check_syms seen parents Map.empty syms) = Inl AssertionError"
proof -
  let ?s = "syms ! i"
  have nf: "type_of ?s \<noteq> FakeInfo"
    using assms(2) by (simp add: violation_at_def Let_def)
  show ?thesis
  proof (cases "fullname ?s")
    case None
    have "?s \<in> set syms" using assms(1) by simp
    then show ?thesis using nf None by (rule check_syms_absent)
  next
    case (Some fn)
    then obtain a where a: "is_checked ?s"
      "find (\<lambda>x. is_checked x \<and> fullname x = Some fn) (take i syms) = Some a"
      "type_of a = type_of ?s"
      using assms(2) by (auto simp: violation_at_def Let_def split: option.splits)
    have "syms = take i syms @ ?s # drop (Suc i) syms"
      using assms(1) by (rule id_take_nth_drop)
    then show ?thesis
      using check_syms_duplicate_of_first(1) [OF a(2) a(1) Some a(3) [symmetric],
          of seen parents "drop (Suc i) syms"]
      by simp
  qed
qed

section \<open>The claims\<close>

text \<open>
  C1 (as amended). The reachable entities are visited in the order of the node map.
  When the first entity with the fully-qualified name \<open>fn\<close> that the loop
  records (no \<^verbatim>\<open>FakeInfo\<close>, \<^verbatim>\<open>Var\<close>, \<^verbatim>\<open>Decorator\<close> or overload variant) is
  \<open>a\<close>, and a later recorded-kind entity \<open>b\<close> has the same name and the same
  class as \<open>a\<close>, then \<^verbatim>\<open>check_consistency\<close> raises \<^verbatim>\<open>AssertionError\<close>. When no
  assertion fails before \<open>b\<close> is reached, the lines printed are the header with
  \<^verbatim>\<open>repr\<close> of the name and the two paths, \<open>b\<close> as [1] and \<open>a\<close> as [2]; the
  \<^verbatim>\<open>repr\<close> of a name of printable characters without quote and backslash is the
  name between single quotes.
\<close>

theorem duplicate_of_first_seen_raises:
  assumes "get_reachable_graph heap root = (seen, parents)"
    and "reachable_syms heap root = pre @ b # rest"
    and "find (\<lambda>s. is_checked s \<and> fullname s = Some fn) pre = Some a"
    and "is_checked b" and "fullname b = Some fn" and "type_of b = type_of a"
  shows "snd (check_consistency heap root) = Inl AssertionError
    \<and> (run_syms seen parents pre = ([], Inr ()) \<longrightarrow>
         check_consistency heap root =
           ([CHR 0x0A # ''Duplicate '' @ py_repr (type_name (type_of b))
               @ '' nodes with fullname '' @ py_repr fn @ '' found:'',
             ''[1] '' @ dec_nat (ident b) @ '': '' @ path_to_str (get_path b seen parents),
             ''[2] '' @ dec_nat (ident a) @ '': '' @ path_to_str (get_path a seen parents)],
            Inl AssertionError))
    \<and> ((\<forall>c \<in> set fn. printable c \<and> c \<noteq> CHR 0x27 \<and> c \<noteq> CHR 0x5C) \<longrightarrow>
         py_repr fn = CHR 0x27 # fn @ [CHR 0x27])"
proof (intro conjI impI)
  have eq: "check_consistency heap root = run_syms seen parents (pre @ b # rest)"
    using assms(1,2) by (simp add: check_consistency_eq)
  show "snd (check_consistency heap root) = Inl AssertionError"
    using check_syms_duplicate_of_first(1) [OF assms(3-6), of seen parents rest]
    unfolding eq run_syms_def by (auto split: prod.splits sum.splits)
  show "check_consistency heap root =
           ([CHR 0x0A # ''Duplicate '' @ py_repr (type_name (type_of b))
               @ '' nodes with fullname '' @ py_repr fn @ '' found:'',
             ''[1] '' @ dec_nat (ident b) @ '': '' @ path_to_str (get_path b seen parents),
             ''[2] '' @ dec_nat (ident a) @ '': '' @ path_to_str (get_path a seen parents)],
            Inl AssertionError)"
    if r: "run_syms seen parents pre = ([], Inr ())"
  proof -
    obtain m where "check_syms seen parents Map.empty pre = ([], Inr m)"
      using r by (auto simp: run_syms_def split: prod.splits sum.splits)
    from check_syms_duplicate_of_first(2) [OF assms(3-6) this]
    show ?thesis
      unfolding eq run_syms_def by (simp add: duplicate_lines_def Let_def)
  qed
  show "py_repr fn = CHR 0x27 # fn @ [CHR 0x27]"
    if p: "\<forall>c \<in> set fn. printable c \<and> c \<noteq> CHR 0x27 \<and> c \<noteq> CHR 0x5C"
    using p by (rule py_repr_plain)
qed

theorem duplicate_of_first_seen_raises_witness:
  "reachable_syms
     [root2, mk_obj 1 TypeInfo (Some ''pkg.mod.Foo'') [], mk_obj 2 TypeInfo (Some ''pkg.mod.Foo'') []]
     root2
   = [mk_obj 1 TypeInfo (Some ''pkg.mod.Foo'') []] @ mk_obj 2 TypeInfo (Some ''pkg.mod.Foo'') [] # []
   \<and> check_consistency
     [root2, mk_obj 1 TypeInfo (Some ''pkg.mod.Foo'') [], mk_obj 2 TypeInfo (Some ''pkg.mod.Foo'') []]
     root2
   = ([CHR 0x0A # ''Duplicate 'TypeInfo' nodes with fullname 'pkg.mod.Foo' found:'',
       ''[1] 2: <root>[1]'', ''[2] 1: <root>[0]''], Inl AssertionError)"
proof -
  let ?a = "mk_obj 1 TypeInfo (Some ''pkg.mod.Foo'') []"
  let ?b = "mk_obj 2 TypeInfo (Some ''pkg.mod.Foo'') []"
  let ?seen = "[(0, root2), (1, ?a), (2, ?b)]"
  let ?parents = "[(1, (0, IntLabel 0)), (2, (0, IntLabel 1))]"
  have g: "get_reachable_graph [root2, ?a, ?b] root2 = (?seen, ?parents)"
    by code_simp
  have s: "reachable_syms [root2, ?a, ?b] root2 = [?a] @ ?b # []"
    by code_simp
  have f: "find (\<lambda>s. is_checked s \<and> fullname s = Some ''pkg.mod.Foo'') [?a] = Some ?a"
    by code_simp
  have c: "is_checked ?b" "fullname ?b = Some ''pkg.mod.Foo''" "type_of ?b = type_of ?a"
    by code_simp+
  have r: "run_syms ?seen ?parents [?a] = ([], Inr ())"
    by code_simp
  have lines:
    "[CHR 0x0A # ''Duplicate '' @ py_repr (type_name (type_of ?b))
        @ '' nodes with fullname '' @ py_repr ''pkg.mod.Foo'' @ '' found:'',
      ''[1] '' @ dec_nat (ident ?b) @ '': '' @ path_to_str (get_path ?b ?seen ?parents),
      ''[2] '' @ dec_nat (ident ?a) @ '': '' @ path_to_str (get_path ?a ?seen ?parents)]
     = [CHR 0x0A # ''Duplicate 'TypeInfo' nodes with fullname 'pkg.mod.Foo' found:'',
       ''[1] 2: <root>[1]'', ''[2] 1: <root>[0]'']"
    by code_simp
  from duplicate_of_first_seen_raises [OF g s f c] r
  have "check_consistency [root2, ?a, ?b] root2 =
           ([CHR 0x0A # ''Duplicate '' @ py_repr (type_name (type_of ?b))
               @ '' nodes with fullname '' @ py_repr ''pkg.mod.Foo'' @ '' found:'',
             ''[1] '' @ dec_nat (ident ?b) @ '': '' @ path_to_str (get_path ?b ?seen ?parents),
             ''[2] '' @ dec_nat (ident ?a) @ '': '' @ path_to_str (get_path ?a ?seen ?parents)],
            Inl AssertionError)"
    by blast
  then show ?thesis using s lines by simp
qed

theorem same_kind_duplicate_masked_counterexample:
  "reachable_syms
     [root3, mk_obj 1 TypeInfo (Some ''pkg.mod.Foo'') [], mk_obj 2 FuncDef (Some ''pkg.mod.Foo'') [],
      mk_obj 3 FuncDef (Some ''pkg.mod.Foo'') []]
     root3
   = [mk_obj 1 TypeInfo (Some ''pkg.mod.Foo'') [], mk_obj 2 FuncDef (Some ''pkg.mod.Foo'') [],
      mk_obj 3 FuncDef (Some ''pkg.mod.Foo'') []]
   \<and> type_of (mk_obj 2 FuncDef (Some ''pkg.mod.Foo'') []) = type_of (mk_obj 3 FuncDef (Some ''pkg.mod.Foo'') [])
   \<and> fullname (mk_obj 2 FuncDef (Some ''pkg.mod.Foo'') []) = fullname (mk_obj 3 FuncDef (Some ''pkg.mod.Foo'') [])
   \<and> \<not> is_exempt (mk_obj 2 FuncDef (Some ''pkg.mod.Foo'') [])
   \<and> \<not> is_exempt (mk_obj 3 FuncDef (Some ''pkg.mod.Foo'') [])
   \<and> check_consistency
     [root3, mk_obj 1 TypeInfo (Some ''pkg.mod.Foo'') [], mk_obj 2 FuncDef (Some ''pkg.mod.Foo'') [],
      mk_obj 3 FuncDef (Some ''pkg.mod.Foo'') []]
     root3
   = ([], Inr ())"
  by code_simp

text \<open>
  C2 (as amended). A reachable \<^verbatim>\<open>SymbolNode\<close> that is no \<^verbatim>\<open>FakeInfo\<close> and whose
  \<^verbatim>\<open>fullname\<close> is \<^verbatim>\<open>None\<close> makes \<^verbatim>\<open>check_consistency\<close> raise
  \<^verbatim>\<open>AssertionError\<close>, whatever else the graph holds and also when the entity is
  a \<^verbatim>\<open>Var\<close>, a \<^verbatim>\<open>Decorator\<close> or an overload variant.
\<close>

theorem absent_name_raises:
  assumes "s \<in> set (reachable_syms heap root)"
    and "type_of s \<noteq> FakeInfo" and "fullname s = None"
  shows "snd (check_consistency heap root) = Inl AssertionError"
proof -
  have "snd (check_syms (fst (get_reachable_graph heap root)) (snd (get_reachable_graph heap root))
          Map.empty (reachable_syms heap root)) = Inl AssertionError"
    using assms by (rule check_syms_absent)
  then show ?thesis
    unfolding check_consistency_eq run_syms_def by (auto split: prod.splits sum.splits)
qed

theorem absent_name_raises_witness:
  "mk_obj 2 Var None [] \<in> set (reachable_syms
      [root2, mk_obj 1 TypeInfo (Some ''pkg.mod.Foo'') [], mk_obj 2 Var None []] root2)
   \<and> type_of (mk_obj 2 Var None []) \<noteq> FakeInfo
   \<and> fullname (mk_obj 2 Var None []) = None
   \<and> snd (check_consistency
      [root2, mk_obj 1 TypeInfo (Some ''pkg.mod.Foo'') [], mk_obj 2 Var None []] root2)
     = Inl AssertionError"
proof -
  let ?h = "[root2, mk_obj 1 TypeInfo (Some ''pkg.mod.Foo'') [], mk_obj 2 Var None []]"
  have a: "mk_obj 2 Var None [] \<in> set (reachable_syms ?h root2)"
    by code_simp
  have b: "type_of (mk_obj 2 Var None []) \<noteq> FakeInfo"
    by code_simp
  have c: "fullname (mk_obj 2 Var None []) = None"
    by code_simp
  show ?thesis
    using a b c absent_name_raises [OF a b c] by simp
qed

theorem absent_name_FakeInfo_counterexample:
  "mk_obj 1 FakeInfo None [] \<in> set (reachable_syms [mk_obj 1 FakeInfo None []] (mk_obj 1 FakeInfo None []))
   \<and> is_SymbolNode (type_of (mk_obj 1 FakeInfo None []))
   \<and> fullname (mk_obj 1 FakeInfo None []) = None
   \<and> check_consistency [mk_obj 1 FakeInfo None []] (mk_obj 1 FakeInfo None []) = ([], Inr ())"
  by code_simp

text \<open>
  C3 (as amended). A collision is met when the loop reaches an entity \<open>b\<close> whose name
  \<open>fn\<close> is recorded for an earlier entity \<open>a\<close>, the first entity with that
  name that the loop records. When \<open>a\<close> and \<open>b\<close> have different classes,
  \<open>b\<close> is passed over: the whole run is the run on the entities without
  \<open>b\<close>, so no error and no output come from the pair, and the iteration on
  \<open>b\<close> leaves every dictionary that binds \<open>fn\<close> to \<open>a\<close> as it is, so
  \<open>b\<close> is not recorded.
\<close>

theorem kind_change_not_a_violation:
  assumes "get_reachable_graph heap root = (seen, parents)"
    and "reachable_syms heap root = pre @ b # rest"
    and "find (\<lambda>s. is_checked s \<and> fullname s = Some fn) pre = Some a"
    and "fullname b = Some fn" and "type_of b \<noteq> type_of a"
  shows "check_consistency heap root = run_syms seen parents (pre @ rest)
    \<and> (\<forall>m. m fn = Some a \<longrightarrow> check_sym seen parents m b = ([], Inr m))"
proof
  have "check_consistency heap root = run_syms seen parents (pre @ b # rest)"
    using assms(1,2) by (simp add: check_consistency_eq)
  also have "\<dots> = run_syms seen parents (pre @ rest)"
    unfolding run_syms_def
    by (simp only: check_syms_ignore_kind_change [OF assms(3-5)])
  finally show "check_consistency heap root = run_syms seen parents (pre @ rest)" .
  show "\<forall>m. m fn = Some a \<longrightarrow> check_sym seen parents m b = ([], Inr m)"
  proof (intro allI impI)
    fix m :: "string \<rightharpoonup> pyobj"
    assume m: "m fn = Some a"
    show "check_sym seen parents m b = ([], Inr m)"
    proof (cases "is_checked b")
      case True
      then show ?thesis using m assms(4,5) by (simp add: check_sym_kind_change)
    next
      case False
      then show ?thesis using assms(4) by (simp add: check_sym_exempt)
    qed
  qed
qed

theorem kind_change_not_a_violation_witness:
  "reachable_syms
     [root2, mk_obj 1 TypeInfo (Some ''pkg.mod.Foo'') [], mk_obj 2 FuncDef (Some ''pkg.mod.Foo'') []]
     root2
   = [mk_obj 1 TypeInfo (Some ''pkg.mod.Foo'') []] @ mk_obj 2 FuncDef (Some ''pkg.mod.Foo'') [] # []
   \<and> type_of (mk_obj 2 FuncDef (Some ''pkg.mod.Foo'') []) \<noteq> type_of (mk_obj 1 TypeInfo (Some ''pkg.mod.Foo'') [])
   \<and> check_consistency
     [root2, mk_obj 1 TypeInfo (Some ''pkg.mod.Foo'') [], mk_obj 2 FuncDef (Some ''pkg.mod.Foo'') []]
     root2
   = ([], Inr ())
   \<and> check_sym [] [] [''pkg.mod.Foo'' \<mapsto> mk_obj 1 TypeInfo (Some ''pkg.mod.Foo'') []]
        (mk_obj 2 FuncDef (Some ''pkg.mod.Foo'') [])
   = ([], Inr [''pkg.mod.Foo'' \<mapsto> mk_obj 1 TypeInfo (Some ''pkg.mod.Foo'') []])"
proof -
  let ?a = "mk_obj 1 TypeInfo (Some ''pkg.mod.Foo'') []"
  let ?b = "mk_obj 2 FuncDef (Some ''pkg.mod.Foo'') []"
  let ?seen = "[(0, root2), (1, ?a), (2, ?b)]"
  let ?parents = "[(1, (0, IntLabel 0)), (2, (0, IntLabel 1))]"
  have g: "get_reachable_graph [root2, ?a, ?b] root2 = (?seen, ?parents)"
    by code_simp
  have s: "reachable_syms [root2, ?a, ?b] root2 = [?a] @ ?b # []"
    by code_simp
  have f: "find (\<lambda>s. is_checked s \<and> fullname s = Some ''pkg.mod.Foo'') [?a] = Some ?a"
    by code_simp
  have c: "fullname ?b = Some ''pkg.mod.Foo''" "type_of ?b \<noteq> type_of ?a"
    by code_simp+
  have r: "run_syms ?seen ?parents ([?a] @ []) = ([], Inr ())"
    by code_simp
  have "check_consistency [root2, ?a, ?b] root2 = ([], Inr ())"
    using kind_change_not_a_violation [OF g s f c] r by simp
  moreover have "check_sym ?seen ?parents [''pkg.mod.Foo'' \<mapsto> ?a] ?b
      = ([], Inr [''pkg.mod.Foo'' \<mapsto> ?a])"
    using kind_change_not_a_violation [OF g s f c] by simp
  moreover have "check_sym [] [] [''pkg.mod.Foo'' \<mapsto> ?a] ?b
      = check_sym ?seen ?parents [''pkg.mod.Foo'' \<mapsto> ?a] ?b"
    by (simp add: check_sym_def mk_obj_def TypeInfo_def)
  ultimately show ?thesis using s c by simp
qed

theorem exempt_first_second_recorded_counterexample:
  "reachable_syms
     [root2, mk_obj 1 Var (Some ''pkg.mod.Foo'') [], mk_obj 2 TypeInfo (Some ''pkg.mod.Foo'') []]
     root2
   = [mk_obj 1 Var (Some ''pkg.mod.Foo'') [], mk_obj 2 TypeInfo (Some ''pkg.mod.Foo'') []]
   \<and> fullname (mk_obj 1 Var (Some ''pkg.mod.Foo'') [])
       = fullname (mk_obj 2 TypeInfo (Some ''pkg.mod.Foo'') [])
   \<and> type_of (mk_obj 1 Var (Some ''pkg.mod.Foo'') [])
       \<noteq> type_of (mk_obj 2 TypeInfo (Some ''pkg.mod.Foo'') [])
   \<and> check_syms
       (fst (get_reachable_graph
          [root2, mk_obj 1 Var (Some ''pkg.mod.Foo'') [], mk_obj 2 TypeInfo (Some ''pkg.mod.Foo'') []]
          root2))
       (snd (get_reachable_graph
          [root2, mk_obj 1 Var (Some ''pkg.mod.Foo'') [], mk_obj 2 TypeInfo (Some ''pkg.mod.Foo'') []]
          root2))
       Map.empty
       [mk_obj 1 Var (Some ''pkg.mod.Foo'') [], mk_obj 2 TypeInfo (Some ''pkg.mod.Foo'') []]
     = ([], Inr [''pkg.mod.Foo'' \<mapsto> mk_obj 2 TypeInfo (Some ''pkg.mod.Foo'') []])
   \<and> check_consistency
       [root3, mk_obj 1 Var (Some ''pkg.mod.Foo'') [], mk_obj 2 TypeInfo (Some ''pkg.mod.Foo'') [],
        mk_obj 3 TypeInfo (Some ''pkg.mod.Foo'') []]
       root3
     = ([CHR 0x0A # ''Duplicate 'TypeInfo' nodes with fullname 'pkg.mod.Foo' found:'',
         ''[1] 3: <root>[2]'', ''[2] 2: <root>[1]''], Inl AssertionError)"
proof -
  let ?v = "mk_obj 1 Var (Some ''pkg.mod.Foo'') []"
  let ?t = "mk_obj 2 TypeInfo (Some ''pkg.mod.Foo'') []"
  have s: "reachable_syms [root2, ?v, ?t] root2 = [?v, ?t]"
    by code_simp
  have n: "fullname ?v = fullname ?t" and k: "type_of ?v \<noteq> type_of ?t"
    by code_simp+
  have d: "check_syms (fst (get_reachable_graph [root2, ?v, ?t] root2))
             (snd (get_reachable_graph [root2, ?v, ?t] root2)) Map.empty [?v, ?t]
           = ([], Inr [''pkg.mod.Foo'' \<mapsto> ?t])"
    by (simp add: check_sym_def mk_obj_def TypeInfo_def)
  have c: "check_consistency
       [root3, ?v, ?t, mk_obj 3 TypeInfo (Some ''pkg.mod.Foo'') []] root3
     = ([CHR 0x0A # ''Duplicate 'TypeInfo' nodes with fullname 'pkg.mod.Foo' found:'',
         ''[1] 3: <root>[2]'', ''[2] 2: <root>[1]''], Inl AssertionError)"
    by code_simp
  show ?thesis
    using s n k d c by simp
qed

text \<open>
  C4 (as amended). When the only reachable entities that share a name are of the
  three kinds \<^verbatim>\<open>Var\<close>, \<^verbatim>\<open>Decorator\<close> and overload variant (every entity of
  another kind that has a name is the only reachable entity with that name), and
  every reachable entity other than a \<^verbatim>\<open>FakeInfo\<close> has a name,
  \<^verbatim>\<open>check_consistency\<close> returns and prints nothing. Entities without a name
  share no name.
\<close>

theorem exempt_kinds_may_share_names:
  assumes "\<forall>x \<in> set (reachable_syms heap root). \<not> is_exempt x \<and> fullname x \<noteq> None \<longrightarrow>
             length (filter (\<lambda>y. fullname y = fullname x) (reachable_syms heap root)) = 1"
    and "\<forall>x \<in> set (reachable_syms heap root). type_of x \<noteq> FakeInfo \<longrightarrow> fullname x \<noteq> None"
  shows "check_consistency heap root = ([], Inr ())"
proof -
  let ?syms = "reachable_syms heap root"
  have "\<forall>x \<in> set ?syms. is_checked x \<longrightarrow>
          length (filter (\<lambda>y. fullname y = fullname x) ?syms) = 1"
  proof (intro ballI impI)
    fix x assume x: "x \<in> set ?syms" "is_checked x"
    have "\<not> is_exempt x" and "type_of x \<noteq> FakeInfo"
      using x(2) by (auto simp: is_checked_def is_exempt_def)
    then have "\<not> is_exempt x \<and> fullname x \<noteq> None"
      using assms(2) x(1) by blast
    then show "length (filter (\<lambda>y. fullname y = fullname x) ?syms) = 1"
      using assms(1) x(1) by blast
  qed
  then have "distinct (map fullname (filter is_checked ?syms))"
    by (rule unique_names_distinct)
  with assms(2) show ?thesis
    unfolding check_consistency_eq by (rule run_syms_no_clash)
qed

theorem exempt_kinds_may_share_names_witness:
  "map ident (reachable_syms exempt_heap root9) = [1, 2, 3, 4, 5, 6, 7, 8, 9]
   \<and> check_consistency exempt_heap root9 = ([], Inr ())"
proof -
  have a: "\<forall>x \<in> set (reachable_syms exempt_heap root9). \<not> is_exempt x \<and> fullname x \<noteq> None \<longrightarrow>
             length (filter (\<lambda>y. fullname y = fullname x) (reachable_syms exempt_heap root9)) = 1"
    by code_simp
  have b: "\<forall>x \<in> set (reachable_syms exempt_heap root9). type_of x \<noteq> FakeInfo \<longrightarrow> fullname x \<noteq> None"
    by code_simp
  have c: "map ident (reachable_syms exempt_heap root9) = [1, 2, 3, 4, 5, 6, 7, 8, 9]"
    by code_simp
  show ?thesis
    using c exempt_kinds_may_share_names [OF a b] by simp
qed

theorem nameless_entity_counterexample:
  "reachable_syms [mk_obj 1 TypeInfo None []] (mk_obj 1 TypeInfo None []) = [mk_obj 1 TypeInfo None []]
   \<and> check_consistency [mk_obj 1 TypeInfo None []] (mk_obj 1 TypeInfo None []) = ([], Inl AssertionError)"
  by code_simp

text \<open>
  C5. When the reachable entities have pairwise distinct names, none of them
  \<^verbatim>\<open>None\<close>, \<^verbatim>\<open>check_consistency\<close> returns without raising.
\<close>

theorem distinct_names_no_raise:
  assumes "distinct (map fullname (reachable_syms heap root))"
    and "None \<notin> set (map fullname (reachable_syms heap root))"
  shows "check_consistency heap root = ([], Inr ())"
proof -
  have "\<forall>s \<in> set (reachable_syms heap root). type_of s \<noteq> FakeInfo \<longrightarrow> fullname s \<noteq> None"
    using assms(2) by force
  moreover have "distinct (map fullname (filter is_checked (reachable_syms heap root)))"
    using assms(1) by (rule distinct_map_filter)
  ultimately show ?thesis
    unfolding check_consistency_eq by (rule run_syms_no_clash)
qed

theorem distinct_names_no_raise_witness:
  "map fullname (reachable_syms
      [root2, mk_obj 1 TypeInfo (Some ''pkg.mod.Foo'') [(StrLabel ''other'', 2)],
       mk_obj 2 TypeInfo (Some ''pkg.mod.Bar'') [(StrLabel ''other'', 1)]] root2)
   = [Some ''pkg.mod.Foo'', Some ''pkg.mod.Bar'']
   \<and> check_consistency
      [root2, mk_obj 1 TypeInfo (Some ''pkg.mod.Foo'') [(StrLabel ''other'', 2)],
       mk_obj 2 TypeInfo (Some ''pkg.mod.Bar'') [(StrLabel ''other'', 1)]] root2
     = ([], Inr ())"
proof -
  let ?h = "[root2, mk_obj 1 TypeInfo (Some ''pkg.mod.Foo'') [(StrLabel ''other'', 2)],
       mk_obj 2 TypeInfo (Some ''pkg.mod.Bar'') [(StrLabel ''other'', 1)]]"
  have m: "map fullname (reachable_syms ?h root2) = [Some ''pkg.mod.Foo'', Some ''pkg.mod.Bar'']"
    by code_simp
  have d: "distinct (map fullname (reachable_syms ?h root2))"
    unfolding m by simp
  have n: "None \<notin> set (map fullname (reachable_syms ?h root2))"
    unfolding m by simp
  show ?thesis
    using m distinct_names_no_raise [OF d n] by simp
qed

text \<open>
  C6. \<^verbatim>\<open>check_consistency\<close> returns \<^verbatim>\<open>None\<close> having printed nothing exactly
  when no position of the reachable entities holds a violation; in particular a
  run that finds no violation raises nothing and prints nothing. The model has no
  other effect: the heap is only read.
\<close>

theorem silent_when_no_violation:
  "(check_consistency heap root = ([], Inr ())) =
     (\<forall>i < length (reachable_syms heap root). \<not> violation_at (reachable_syms heap root) i)"
proof
  assume ok: "check_consistency heap root = ([], Inr ())"
  show "\<forall>i < length (reachable_syms heap root). \<not> violation_at (reachable_syms heap root) i"
  proof (intro allI impI notI)
    fix i assume "i < length (reachable_syms heap root)"
      and "violation_at (reachable_syms heap root) i"
    then have "snd (check_syms (fst (get_reachable_graph heap root))
        (snd (get_reachable_graph heap root)) Map.empty (reachable_syms heap root))
        = Inl AssertionError"
      by (rule check_syms_violation)
    then show False
      using ok unfolding check_consistency_eq run_syms_def
      by (auto split: prod.splits sum.splits)
  qed
next
  assume "\<forall>i < length (reachable_syms heap root). \<not> violation_at (reachable_syms heap root) i"
  from check_syms_no_violation [OF this] obtain m where
    "check_syms (fst (get_reachable_graph heap root)) (snd (get_reachable_graph heap root))
       Map.empty (reachable_syms heap root) = ([], Inr m)"
    by blast
  then show "check_consistency heap root = ([], Inr ())"
    unfolding check_consistency_eq run_syms_def by simp
qed

theorem silent_when_no_violation_witness:
  "length (reachable_syms
      [root2, mk_obj 1 TypeInfo (Some ''pkg.mod.Foo'') [], mk_obj 2 Var (Some ''pkg.mod.Foo'') []] root2)
   = 2
   \<and> \<not> violation_at (reachable_syms
      [root2, mk_obj 1 TypeInfo (Some ''pkg.mod.Foo'') [], mk_obj 2 Var (Some ''pkg.mod.Foo'') []] root2) 0
   \<and> \<not> violation_at (reachable_syms
      [root2, mk_obj 1 TypeInfo (Some ''pkg.mod.Foo'') [], mk_obj 2 Var (Some ''pkg.mod.Foo'') []] root2) 1
   \<and> check_consistency
      [root2, mk_obj 1 TypeInfo (Some ''pkg.mod.Foo'') [], mk_obj 2 Var (Some ''pkg.mod.Foo'') []] root2
     = ([], Inr ())"
proof -
  let ?h = "[root2, mk_obj 1 TypeInfo (Some ''pkg.mod.Foo'') [], mk_obj 2 Var (Some ''pkg.mod.Foo'') []]"
  have n: "length (reachable_syms ?h root2) = 2"
    by code_simp
  have v: "\<not> violation_at (reachable_syms ?h root2) 0" "\<not> violation_at (reachable_syms ?h root2) 1"
    by code_simp+
  have "\<forall>i < length (reachable_syms ?h root2). \<not> violation_at (reachable_syms ?h root2) i"
    unfolding n using v by (simp add: less_Suc_eq numeral_2_eq_2)
  then have "check_consistency ?h root2 = ([], Inr ())"
    using silent_when_no_violation [of ?h root2] by simp
  then show ?thesis using n v by simp
qed

text \<open>
  C7. The rendered path is the root marker followed by one fragment per step, in
  the order of the path; \<open>render_step\<close> is the fragment as the specification
  words it.
\<close>

theorem path_to_str_renders_steps_in_order:
  "path_to_str path = ''<root>'' @ concat (map render_step path)"
  unfolding path_to_str_def by (rule path_to_str_loop_render)

text \<open>
  C8. The traversal is a total function: its recursion is well-founded on every
  heap, cyclic or not (\<open>walk_terminates\<close>). When the root is an object of the
  heap and reaches an object \<open>a\<close> that refers to an object \<open>b\<close> that refers
  back to \<open>a\<close>, the identities of \<open>a\<close> and \<open>b\<close> each occur exactly once
  among the keys of the node map, bound to \<open>a\<close> and to \<open>b\<close>.
\<close>

theorem cycle_nodes_appear_once:
  assumes "deref heap (ident root) = Some root"
    and "(ident root, ident a) \<in> (refs heap)\<^sup>*"
    and "deref heap (ident a) = Some a" and "deref heap (ident b) = Some b"
    and "(s1, ident b) \<in> set (members a)" and "(s2, ident a) \<in> set (members b)"
  shows "walk_dom (heap, [(ident root, root)], [], [root])
    \<and> count_list (map fst (fst (get_reachable_graph heap root))) (ident a) = 1
    \<and> count_list (map fst (fst (get_reachable_graph heap root))) (ident b) = 1
    \<and> map_of (fst (get_reachable_graph heap root)) (ident a) = Some a
    \<and> map_of (fst (get_reachable_graph heap root)) (ident b) = Some b"
proof -
  have "(s1, b) \<in> set (get_edges heap a)"
    using assms(5,4) by (rule get_edges_member)
  then have "(ident a, ident b) \<in> refs heap"
    using assms(3) unfolding refs_def by blast
  with assms(2) have rb: "(ident root, ident b) \<in> (refs heap)\<^sup>*"
    by (rule rtrancl_into_rtrancl)
  have "walk_dom (heap, [(ident root, root)], [], [root])"
    using walk_terminates by blast
  then show ?thesis
    using get_reachable_graph_once [OF assms(1,2)] get_reachable_graph_once [OF assms(1) rb]
      assms(3,4) by simp
qed

theorem cycle_nodes_appear_once_witness:
  "map fst (fst (get_reachable_graph
      [root2, mk_obj 1 TypeInfo (Some ''pkg.mod.Foo'') [(StrLabel ''other'', 2)],
       mk_obj 2 TypeInfo (Some ''pkg.mod.Bar'') [(StrLabel ''other'', 1)]] root2))
   = [0, 1, 2]
   \<and> count_list (map fst (fst (get_reachable_graph
      [root2, mk_obj 1 TypeInfo (Some ''pkg.mod.Foo'') [(StrLabel ''other'', 2)],
       mk_obj 2 TypeInfo (Some ''pkg.mod.Bar'') [(StrLabel ''other'', 1)]] root2))) 1 = 1
   \<and> count_list (map fst (fst (get_reachable_graph
      [root2, mk_obj 1 TypeInfo (Some ''pkg.mod.Foo'') [(StrLabel ''other'', 2)],
       mk_obj 2 TypeInfo (Some ''pkg.mod.Bar'') [(StrLabel ''other'', 1)]] root2))) 2 = 1"
proof -
  let ?a = "mk_obj 1 TypeInfo (Some ''pkg.mod.Foo'') [(StrLabel ''other'', 2)]"
  let ?b = "mk_obj 2 TypeInfo (Some ''pkg.mod.Bar'') [(StrLabel ''other'', 1)]"
  let ?h = "[root2, ?a, ?b]"
  have ids: "ident root2 = 0" "ident ?a = 1" "ident ?b = 2"
    by code_simp+
  have r: "deref ?h (ident root2) = Some root2"
    by code_simp
  have da: "deref ?h (ident ?a) = Some ?a" and db: "deref ?h (ident ?b) = Some ?b"
    by code_simp+
  have "(IntLabel 0, ?a) \<in> set (get_edges ?h root2)"
    by code_simp
  then have "(ident root2, ident ?a) \<in> refs ?h"
    using r unfolding refs_def by blast
  then have reach: "(ident root2, ident ?a) \<in> (refs ?h)\<^sup>*"
    by (rule r_into_rtrancl)
  have ma: "(StrLabel ''other'', ident ?b) \<in> set (members ?a)"
    and mb: "(StrLabel ''other'', ident ?a) \<in> set (members ?b)"
    by code_simp+
  have m: "map fst (fst (get_reachable_graph ?h root2)) = [0, 1, 2]"
    by code_simp
  show ?thesis
    using m cycle_nodes_appear_once [OF r reach da db ma mb] ids by simp
qed

text \<open>
  C9. Every \<^verbatim>\<open>FakeInfo\<close> is skipped before any check: the run is the run on the
  reachable entities with every \<^verbatim>\<open>FakeInfo\<close> left out, whatever its name.
\<close>

theorem FakeInfo_skipped_before_all_checks:
  "check_consistency heap root =
     run_syms (fst (get_reachable_graph heap root)) (snd (get_reachable_graph heap root))
       (filter (\<lambda>x. type_of x \<noteq> FakeInfo) (reachable_syms heap root))"
  unfolding check_consistency_eq run_syms_def
  by (simp only: check_syms_skip_FakeInfo [symmetric])

text \<open>
  C10. Whenever the loop has processed a prefix \<open>pre\<close> of the entities without an
  error, the dictionary binds each name to the first entity of \<open>pre\<close> with that
  name that the loop records; an entity of another class with a bound name leaves
  the dictionary as it is; and a later entity of the class of the bound one fails
  the assertion, reported against the bound entity.
\<close>

theorem dictionary_binds_first_seen:
  assumes "check_syms seen parents Map.empty pre = (out, Inr m)"
  shows "m fn = find (\<lambda>s. is_checked s \<and> fullname s = Some fn) pre
    \<and> (\<forall>a c. m fn = Some a \<and> is_checked c \<and> fullname c = Some fn \<and> type_of c \<noteq> type_of a \<longrightarrow>
          check_syms seen parents Map.empty (pre @ [c]) = ([], Inr m))
    \<and> (\<forall>a c rest. m fn = Some a \<and> is_checked c \<and> fullname c = Some fn \<and> type_of c = type_of a \<longrightarrow>
          check_syms seen parents Map.empty (pre @ c # rest)
          = (duplicate_lines fn c a seen parents, Inl AssertionError))"
proof (intro conjI allI impI)
  show b: "m fn = find (\<lambda>s. is_checked s \<and> fullname s = Some fn) pre"
    using check_syms_binding [OF assms, of fn] by simp
  have o: "out = []" using assms by (rule check_syms_Inr_out)
  show "check_syms seen parents Map.empty (pre @ [c]) = ([], Inr m)"
    if h: "m fn = Some a \<and> is_checked c \<and> fullname c = Some fn \<and> type_of c \<noteq> type_of a" for a c
  proof -
    have "check_sym seen parents m c = ([], Inr m)"
      using h by (simp add: check_sym_kind_change)
    then show ?thesis using assms o by (simp add: check_syms_append)
  qed
  show "check_syms seen parents Map.empty (pre @ c # rest)
          = (duplicate_lines fn c a seen parents, Inl AssertionError)"
    if h: "m fn = Some a \<and> is_checked c \<and> fullname c = Some fn \<and> type_of c = type_of a" for a c rest
  proof -
    have "find (\<lambda>s. is_checked s \<and> fullname s = Some fn) pre = Some a"
      using h b by simp
    from check_syms_duplicate_of_first(2) [OF this _ _ _ assms] h
    show ?thesis by blast
  qed
qed

theorem dictionary_binds_first_seen_witness:
  "check_syms [] [] Map.empty
     [mk_obj 1 TypeInfo (Some ''pkg.mod.Foo'') [], mk_obj 2 FuncDef (Some ''pkg.mod.Foo'') []]
   = ([], Inr [''pkg.mod.Foo'' \<mapsto> mk_obj 1 TypeInfo (Some ''pkg.mod.Foo'') []])
   \<and> find (\<lambda>s. is_checked s \<and> fullname s = Some ''pkg.mod.Foo'')
       [mk_obj 1 TypeInfo (Some ''pkg.mod.Foo'') [], mk_obj 2 FuncDef (Some ''pkg.mod.Foo'') []]
     = Some (mk_obj 1 TypeInfo (Some ''pkg.mod.Foo'') [])
   \<and> check_syms [] [] Map.empty
       ([mk_obj 1 TypeInfo (Some ''pkg.mod.Foo'') [], mk_obj 2 FuncDef (Some ''pkg.mod.Foo'') []]
        @ mk_obj 3 TypeInfo (Some ''pkg.mod.Foo'') [] # [])
     = ([CHR 0x0A # ''Duplicate 'TypeInfo' nodes with fullname 'pkg.mod.Foo' found:'',
         ''[1] 3: <root>'', ''[2] 1: <root>''], Inl AssertionError)"
proof -
  let ?a = "mk_obj 1 TypeInfo (Some ''pkg.mod.Foo'') []"
  let ?b = "mk_obj 2 FuncDef (Some ''pkg.mod.Foo'') []"
  let ?c = "mk_obj 3 TypeInfo (Some ''pkg.mod.Foo'') []"
  have p: "check_syms [] [] Map.empty [?a, ?b] = ([], Inr [''pkg.mod.Foo'' \<mapsto> ?a])"
    by (simp add: check_sym_def mk_obj_def TypeInfo_def)
  have c: "[''pkg.mod.Foo'' \<mapsto> ?a] ''pkg.mod.Foo'' = Some ?a \<and> is_checked ?c
           \<and> fullname ?c = Some ''pkg.mod.Foo'' \<and> type_of ?c = type_of ?a"
    by (simp add: is_checked_def mk_obj_def TypeInfo_def)
  have l: "duplicate_lines ''pkg.mod.Foo'' ?c ?a [] []
           = [CHR 0x0A # ''Duplicate 'TypeInfo' nodes with fullname 'pkg.mod.Foo' found:'',
              ''[1] 3: <root>'', ''[2] 1: <root>'']"
    by code_simp
  from dictionary_binds_first_seen [OF p, of "''pkg.mod.Foo''"]
  have "[''pkg.mod.Foo'' \<mapsto> ?a] ''pkg.mod.Foo''
          = find (\<lambda>s. is_checked s \<and> fullname s = Some ''pkg.mod.Foo'') [?a, ?b]"
    and "check_syms [] [] Map.empty ([?a, ?b] @ ?c # [])
          = (duplicate_lines ''pkg.mod.Foo'' ?c ?a [] [], Inl AssertionError)"
    using c by blast+
  then show ?thesis using p l by simp
qed

end
